theory Spec2Isabelle
  imports Main "HOL-Library.Word"
begin

section \<open>The BLAKE2s test-vector generator \<^verbatim>\<open>gen_vectors.py\<close>\<close>

text \<open>
  The script builds a fixed 32-byte key, runs two sweeps of eight iterations (salt, then
  personalisation), hashes the empty message through the external \<^verbatim>\<open>pyblake2\<close>
  library and writes the sixteen dictionaries to a file as one JSON array.

  The hash function is not part of the repository: every definition below takes it as the
  parameter \<open>H\<close>, called as \<open>H data key salt person\<close> and returning the digest bytes.
  \<^verbatim>\<open>blake2s(key=k, salt=s)\<close> leaves \<^verbatim>\<open>data\<close> and \<^verbatim>\<open>person\<close> at their
  defaults \<^verbatim>\<open>b''\<close>, so it is \<open>H [] k s []\<close>.
\<close>

subsection \<open>Bytes and hexadecimal text\<close>

type_synonym byte = "8 word"

type_synonym hashfn = "byte list \<Rightarrow> byte list \<Rightarrow> byte list \<Rightarrow> byte list \<Rightarrow> byte list"

text \<open>
  \<^verbatim>\<open>bytearray(range(n))\<close>: the bytes \<open>0, 1, ..., n - 1\<close>. Python raises ValueError for an
  element outside \<open>range(256)\<close>; the script calls it with \<open>n = 32\<close> and \<open>n = i + 1 \<le> 8\<close> only.
\<close>

definition bytearray_range :: "nat \<Rightarrow> byte list" where
  "bytearray_range n = map of_nat [0..<n]"

definition hexdigit :: "nat \<Rightarrow> char" where
  "hexdigit n = ''0123456789abcdef'' ! n"

text \<open>\<^verbatim>\<open>bytearray.hex()\<close> and \<^verbatim>\<open>hexdigest()\<close>: two lower-case digits for each byte.\<close>

definition hex_byte :: "byte \<Rightarrow> string" where
  "hex_byte b = [hexdigit (unat b div 16), hexdigit (unat b mod 16)]"

definition hex :: "byte list \<Rightarrow> string" where
  "hex bs = concat (map hex_byte bs)"

definition hexdigest :: "byte list \<Rightarrow> string" where
  "hexdigest digest = hex digest"

text \<open>
  The reading of hexadecimal text that the specification's "hex-decodes to" refers to
  (Python's \<^verbatim>\<open>bytes.fromhex\<close> on text without blanks): pairs of digits, either case;
  \<open>None\<close> for anything else. It is not part of the script.
\<close>

definition digit_val :: "char \<Rightarrow> nat option" where
  "digit_val c =
     (let n = of_char c :: nat in
      if 48 \<le> n \<and> n \<le> 57 then Some (n - 48)
      else if 97 \<le> n \<and> n \<le> 102 then Some (n - 87)
      else if 65 \<le> n \<and> n \<le> 70 then Some (n - 55)
      else None)"

fun fromhex :: "string \<Rightarrow> byte list option" where
  "fromhex [] = Some []"
| "fromhex [c] = None"
| "fromhex (c # d # cs) =
     (case (digit_val c, digit_val d, fromhex cs) of
        (Some h, Some l, Some bs) \<Rightarrow> Some (of_nat (16 * h + l) # bs)
      | _ \<Rightarrow> None)"

subsection \<open>The dictionaries built by the two loops\<close>

text \<open>
  A Python dictionary keeps its keys in insertion order, and \<^verbatim>\<open>json.dumps\<close> walks it in
  that order, so \<^verbatim>\<open>test\<close> is an association list. All its values are strings.
\<close>

type_synonym dict = "(string \<times> string) list"

definition key_bytes :: "byte list" where
  "key_bytes = bytearray_range 32"

text \<open>The dictionary of iteration \<open>i\<close> of the first loop.\<close>

definition salt_test :: "hashfn \<Rightarrow> nat \<Rightarrow> dict" where
  "salt_test H i =
     (let salt_bytes = bytearray_range (i + 1) in
      [(''hash'', ''blake2s''),
       (''in'', ''''),
       (''key'', hex key_bytes),
       (''persona'', ''''),
       (''salt'', hex salt_bytes),
       (''out'', hexdigest (H [] key_bytes salt_bytes []))])"

text \<open>The dictionary of iteration \<open>i\<close> of the second loop.\<close>

definition persona_test :: "hashfn \<Rightarrow> nat \<Rightarrow> dict" where
  "persona_test H i =
     (let persona_bytes = bytearray_range (i + 1) in
      [(''hash'', ''blake2s''),
       (''in'', ''''),
       (''key'', hex key_bytes),
       (''persona'', hex persona_bytes),
       (''salt'', ''''),
       (''out'', hexdigest (H [] key_bytes [] persona_bytes))])"

text \<open>
  The values that \<^verbatim>\<open>test\<close> takes during one run, in the order of execution:
  \<^verbatim>\<open>range(8)\<close> of the first loop, then \<^verbatim>\<open>range(8)\<close> of the second.
\<close>

definition records :: "hashfn \<Rightarrow> dict list" where
  "records H = map (salt_test H) [0..<8] @ map (persona_test H) [0..<8]"

text \<open>Reading a field: \<^verbatim>\<open>test[k]\<close>.\<close>

definition field :: "dict \<Rightarrow> string \<Rightarrow> string option" where
  "field d k = map_of d k"

subsection \<open>\<^verbatim>\<open>json.dumps(test, indent=True)\<close>\<close>

text \<open>
  The standard encoder with \<^verbatim>\<open>ensure_ascii\<close>: a string is quoted; the quote and the
  backslash are escaped by a backslash, the five control characters with a short form use
  it, and every other character outside \<open>' '..'~'\<close> becomes \<^verbatim>\<open>\uXXXX\<close>. A \<open>char\<close> is a
  code point below 256, so the first two digits are zero.
\<close>

definition escape_char :: "char \<Rightarrow> string" where
  "escape_char c =
     (if c = CHR 0x5C then [CHR 0x5C, CHR 0x5C]
      else if c = CHR 0x22 then [CHR 0x5C, CHR 0x22]
      else if c = CHR 0x08 then [CHR 0x5C, CHR ''b'']
      else if c = CHR 0x0C then [CHR 0x5C, CHR ''f'']
      else if c = CHR 0x0A then [CHR 0x5C, CHR ''n'']
      else if c = CHR 0x0D then [CHR 0x5C, CHR ''r'']
      else if c = CHR 0x09 then [CHR 0x5C, CHR ''t'']
      else if (of_char c :: nat) < 32 \<or> 126 < (of_char c :: nat)
        then [CHR 0x5C, CHR ''u'', CHR ''0'', CHR ''0'',
              hexdigit (of_char c div 16), hexdigit (of_char c mod 16)]
      else [c])"

definition encode_str :: "string \<Rightarrow> string" where
  "encode_str s = [CHR 0x22] @ concat (map escape_char s) @ [CHR 0x22]"

text \<open>\<^verbatim>\<open>sep.join(xs)\<close>\<close>

fun join :: "string \<Rightarrow> string list \<Rightarrow> string" where
  "join sep [] = []"
| "join sep [x] = x"
| "join sep (x # y # ys) = x @ sep @ join sep (y # ys)"

text \<open>
  \<^verbatim>\<open>indent=True\<close> is the integer 1: the encoder indents by \<^verbatim>\<open>' ' * True\<close>, one blank.
  With an indent the item separator is \<^verbatim>\<open>','\<close> followed by the newline and the indent,
  the key separator is \<^verbatim>\<open>': '\<close>, and the empty dictionary is \<^verbatim>\<open>'{}'\<close>.
\<close>

definition dumps :: "dict \<Rightarrow> string" where
  "dumps d =
     (if d = [] then ''{}''
      else ''{'' @ ''\<newline> '' @
           join '',\<newline> '' (map (\<lambda>(k, v). encode_str k @ '': '' @ encode_str v) d) @
           ''\<newline>'' @ ''}'')"

subsection \<open>The file system and the file object\<close>

text \<open>
  The part of the operating system and of Python's \<^verbatim>\<open>io\<close> library the script touches.

  \<open>files\<close> holds what every file holds on its device and \<open>stdout\<close> what has been printed.
  \<open>handles\<close> holds the open file objects. A file object has the path it was opened on
  (\<open>name\<close>), the text written to it that has not reached the device yet (\<open>pending\<close>), and
  \<open>line_buffering\<close>, which \<^verbatim>\<open>open\<close> switches on for a terminal.

  The environment decides which calls fail: a path in \<open>unwritable\<close> cannot be opened for
  writing, and \<open>capacity = Some n\<close> is a device that takes \<open>n\<close> more bytes and then refuses
  (a full disk, a file size limit, a terminal whose other end has gone); \<open>None\<close> is a
  device that never refuses.

  An exception is recorded with the call that raised it, as its traceback shows it.
\<close>

datatype call = Open | Write | Close

datatype error = OSError call | ValueError call

record fileobj =
  name :: string
  pending :: string
  line_buffering :: bool

record world =
  files :: "string \<rightharpoonup> string"
  handles :: "nat \<rightharpoonup> fileobj"
  next_fd :: nat
  unwritable :: "string set"
  ttys :: "string set"
  capacity :: "nat option"
  stdout :: string

text \<open>A statement either returns a value or raises; both leave a state behind.\<close>

type_synonym 'a io = "world \<Rightarrow> (error + 'a) \<times> world"

definition io_bind :: "'a io \<Rightarrow> ('a \<Rightarrow> 'b io) \<Rightarrow> 'b io" where
  "io_bind m f s = (case m s of (Inl e, s') \<Rightarrow> (Inl e, s') | (Inr x, s') \<Rightarrow> f x s')"

definition io_then :: "unit io \<Rightarrow> 'b io \<Rightarrow> 'b io" where
  "io_then m k = io_bind m (\<lambda>_. k)"

text \<open>
  \<^verbatim>\<open>open(path, 'w')\<close>: raises OSError, or truncates the file and returns a new file object
  with nothing pending, line-buffered when the path is a terminal.
\<close>

definition open_w :: "string \<Rightarrow> nat io" where
  "open_w path s =
     (if path \<in> unwritable s then (Inl (OSError Open), s)
      else (Inr (next_fd s),
            s\<lparr>files := (files s)(path \<mapsto> []),
              handles := (handles s)(next_fd s \<mapsto>
                \<lparr>name = path, pending = [], line_buffering = (path \<in> ttys s)\<rparr>),
              next_fd := Suc (next_fd s)\<rparr>))"

text \<open>
  The device is handed some bytes and takes as many of them as it still has room for. The
  result is the number taken.
\<close>

definition device_write :: "string \<Rightarrow> string \<Rightarrow> world \<Rightarrow> nat \<times> world" where
  "device_write path data s =
     (let n = (case capacity s of None \<Rightarrow> length data | Some c \<Rightarrow> min c (length data))
      in (n,
          s\<lparr>files := (files s)(path \<mapsto> (case files s path of None \<Rightarrow> [] | Some old \<Rightarrow> old) @ take n data),
            capacity := map_option (\<lambda>c. c - n) (capacity s)\<rparr>))"

text \<open>
  The library empties the buffer of a file object: the pending text goes to the device, and
  OSError is raised, in the name of the call that asked for it, when the device did not take
  all of it. What it did not take stays pending.
\<close>

definition fd_flush :: "call \<Rightarrow> nat \<Rightarrow> unit io" where
  "fd_flush who fd s =
     (case handles s fd of
        None \<Rightarrow> (Inl (ValueError who), s)
      | Some f \<Rightarrow>
          (case device_write (name f) (pending f) s of
             (n, s') \<Rightarrow>
               (if n = length (pending f) then Inr () else Inl (OSError who),
                s'\<lparr>handles := (handles s')(fd \<mapsto> f\<lparr>pending := drop n (pending f)\<rparr>)\<rparr>)))"

text \<open>
  The size of the library's buffer (\<^verbatim>\<open>io.DEFAULT_BUFFER_SIZE\<close>). With digests of 32 bytes
  one run writes 3602 bytes and stays below it.
\<close>

definition buffer_size :: nat where
  "buffer_size = 8192"

text \<open>
  \<^verbatim>\<open>fd.write(str)\<close>: ValueError on a closed file object; otherwise the text is added to the
  pending text and the call returns, without touching the device. The buffer is emptied
  within the call, and the call may raise OSError, only when the file object is
  line-buffered and the text has a line end in it, or when the pending text has reached the
  size of the buffer.
\<close>

definition fd_write :: "nat \<Rightarrow> string \<Rightarrow> unit io" where
  "fd_write fd str s =
     (case handles s fd of
        None \<Rightarrow> (Inl (ValueError Write), s)
      | Some f \<Rightarrow>
          (let s' = s\<lparr>handles := (handles s)(fd \<mapsto> f\<lparr>pending := pending f @ str\<rparr>)\<rparr>
           in if (line_buffering f \<and> (CHR 0x0A \<in> set str \<or> CHR 0x0D \<in> set str))
                 \<or> buffer_size \<le> length (pending f @ str)
              then fd_flush Write fd s'
              else (Inr (), s')))"

text \<open>
  \<^verbatim>\<open>fd.close()\<close>: the buffer is emptied, which may raise OSError, and the file object is
  released whether it did or not; closing a closed one does nothing.
\<close>

definition fd_close :: "nat \<Rightarrow> unit io" where
  "fd_close fd s =
     (case handles s fd of
        None \<Rightarrow> (Inr (), s)
      | Some f \<Rightarrow>
          (case fd_flush Close fd s of
             (r, s') \<Rightarrow> (r, s'\<lparr>handles := (handles s')(fd := None)\<rparr>)))"

text \<open>\<^verbatim>\<open>for i in xs: body(i)\<close>, left by the first exception.\<close>

fun for_each :: "'a list \<Rightarrow> ('a \<Rightarrow> unit io) \<Rightarrow> unit io" where
  "for_each [] body s = (Inr (), s)"
| "for_each (i # is) body s =
     (case body i s of (Inl e, s') \<Rightarrow> (Inl e, s') | (Inr _, s') \<Rightarrow> for_each is body s')"

subsection \<open>\<^verbatim>\<open>main\<close>\<close>

definition main :: "hashfn \<Rightarrow> string \<Rightarrow> unit io" where
  "main H output_fn =
     io_bind (open_w output_fn) (\<lambda>fd.
       io_then (fd_write fd ''[\<newline>'')
      (io_then (for_each [0..<8] (\<lambda>i.
                  fd_write fd (dumps (salt_test H i) @ '',\<newline>'')))
      (io_then (for_each [0..<8] (\<lambda>i.
                  fd_write fd (dumps (persona_test H i) @ (if i < 7 then '','' else []) @ ''\<newline>'')))
      (io_then (fd_write fd '']'')
               (fd_close fd)))))"

subsection \<open>The script\<close>

text \<open>
  How the process ends: \<^verbatim>\<open>sys.exit(n)\<close> or the end of the script (status 0), or an
  exception nobody caught, for which the interpreter prints a traceback and exits with
  status 1.
\<close>

datatype outcome = Exit nat | Traceback error

fun exit_status :: "outcome \<Rightarrow> nat" where
  "exit_status (Exit n) = n"
| "exit_status (Traceback e) = 1"

definition print :: "string \<Rightarrow> world \<Rightarrow> world" where
  "print str s = s\<lparr>stdout := stdout s @ str @ ''\<newline>''\<rparr>"

definition script :: "hashfn \<Rightarrow> string list \<Rightarrow> world \<Rightarrow> outcome \<times> world" where
  "script H argv s =
     (if length argv < 2 then (Exit 1, print ''Usage: gen_vectors.py <path to output file>'' s)
      else (case main H (argv ! 1) s of
              (Inl e, s') \<Rightarrow> (Traceback e, s')
            | (Inr _, s') \<Rightarrow> (Exit 0, s')))"

subsection \<open>Notions used to state the properties\<close>

text \<open>
  The eighteen strings handed to \<^verbatim>\<open>fd.write\<close> during one run of \<^verbatim>\<open>main\<close>, in order:
  the opening bracket, one string for each iteration of the two loops, the closing bracket.
\<close>

definition chunks :: "hashfn \<Rightarrow> string list" where
  "chunks H =
     ''[\<newline>'' #
     map (\<lambda>i. dumps (salt_test H i) @ '',\<newline>'') [0..<8] @
     map (\<lambda>i. dumps (persona_test H i) @ (if i < 7 then '','' else []) @ ''\<newline>'') [0..<8] @
     ['']'']"

text \<open>A field of a record, read as hexadecimal text.\<close>

definition decoded :: "dict \<Rightarrow> string \<Rightarrow> byte list option" where
  "decoded r k = (case field r k of None \<Rightarrow> None | Some s \<Rightarrow> fromhex s)"

text \<open>
  What \<^verbatim>\<open>out\<close> has to be, going by the record's own \<^verbatim>\<open>key\<close>, \<^verbatim>\<open>salt\<close> and
  \<^verbatim>\<open>persona\<close> read back from hexadecimal: the digest of the empty message under the
  three parameters.
\<close>

definition expected_digest :: "hashfn \<Rightarrow> dict \<Rightarrow> byte list option" where
  "expected_digest H r =
     (case (decoded r ''key'', decoded r ''salt'', decoded r ''persona'') of
        (Some k, Some s, Some p) \<Rightarrow> Some (H [] k s p)
      | _ \<Rightarrow> None)"

text \<open>
  A world to run the script in: no files, nothing open, every path writable and none a
  terminal, a device that never refuses. And a function to stand for the hash where a
  concrete one is needed; the properties hold for any \<open>H\<close>.
\<close>

definition empty_world :: world where
  "empty_world =
     \<lparr>files = Map.empty, handles = Map.empty, next_fd = 3, unwritable = {}, ttys = {},
      capacity = None, stdout = []\<rparr>"

definition sample_hash :: hashfn where
  "sample_hash data key salt person = take 32 (salt @ person @ key @ data)"

text \<open>
  Two worlds in which the device refuses: one whose files may not grow beyond 1000 bytes,
  and one in which \<^verbatim>\<open>/dev/pts/0\<close> is a terminal that takes nothing any more.
\<close>

definition limited_world :: world where
  "limited_world = empty_world\<lparr>capacity := Some 1000\<rparr>"

definition terminal_world :: world where
  "terminal_world = empty_world\<lparr>ttys := {''/dev/pts/0''}, capacity := Some 0\<rparr>"

text \<open>
  What holds of the world while \<^verbatim>\<open>main\<close> is writing through the file object \<open>fd\<close> that
  it opened on \<open>path\<close> in the world \<open>s0\<close>: the device holds \<open>dev\<close>, the file object has
  \<open>pend\<close> pending, the device has given up room for \<open>dev\<close>, and nothing else has changed.
\<close>

definition writing :: "world \<Rightarrow> nat \<Rightarrow> string \<Rightarrow> string \<Rightarrow> string \<Rightarrow> world \<Rightarrow> bool" where
  "writing s0 fd path dev pend s \<longleftrightarrow>
     handles s fd = Some \<lparr>name = path, pending = pend, line_buffering = (path \<in> ttys s0)\<rparr> \<and>
     files s path = Some dev \<and>
     (case capacity s0 of
        None \<Rightarrow> capacity s = None
      | Some c0 \<Rightarrow> length dev \<le> c0 \<and> capacity s = Some (c0 - length dev)) \<and>
     (\<forall>q. q \<noteq> path \<longrightarrow> files s q = files s0 q) \<and>
     (\<forall>g. g \<noteq> fd \<longrightarrow> handles s g = handles s0 g) \<and>
     next_fd s = next_fd s0 \<and> unwritable s = unwritable s0 \<and> ttys s = ttys s0 \<and>
     stdout s = stdout s0"

subsection \<open>Reading JSON text\<close>

text \<open>
  What "well-formed JSON" means below: a reader for the JSON grammar (RFC 8259) restricted
  to strings, arrays and objects, the values the script writes. It is not part of the
  script. A text is accepted when \<open>json_parse\<close> returns a value; numbers and the three
  literal names are rejected, so every accepted text is JSON.
\<close>

datatype json = JString string | JArray "json list" | JObject "(string \<times> json) list"

datatype token = LBrack | RBrack | LBrace | RBrace | Comma | Colon | TStr string

definition is_ws :: "char \<Rightarrow> bool" where
  "is_ws c \<longleftrightarrow> c = CHR '' '' \<or> c = CHR 0x09 \<or> c = CHR 0x0A \<or> c = CHR 0x0D"

text \<open>The character after a backslash, for the escapes of one letter.\<close>

definition unescape :: "char \<Rightarrow> char option" where
  "unescape e =
     (if e = CHR 0x22 then Some (CHR 0x22)
      else if e = CHR 0x5C then Some (CHR 0x5C)
      else if e = CHR ''/'' then Some (CHR ''/'')
      else if e = CHR ''b'' then Some (CHR 0x08)
      else if e = CHR ''f'' then Some (CHR 0x0C)
      else if e = CHR ''n'' then Some (CHR 0x0A)
      else if e = CHR ''r'' then Some (CHR 0x0D)
      else if e = CHR ''t'' then Some (CHR 0x09)
      else None)"

text \<open>
  The lexer. Its first argument is \<open>None\<close> between tokens and \<open>Some acc\<close> inside a string
  literal, \<open>acc\<close> holding the characters read so far, last one first. Of the \<^verbatim>\<open>\uXXXX\<close>
  escapes it reads those below 256, the code points a \<open>char\<close> has.
\<close>

fun lex :: "string option \<Rightarrow> string \<Rightarrow> token list option" where
  "lex None [] = Some []"
| "lex (Some acc) [] = None"
| "lex None (c # cs) =
     (if is_ws c then lex None cs
      else if c = CHR ''['' then map_option (Cons LBrack) (lex None cs)
      else if c = CHR '']'' then map_option (Cons RBrack) (lex None cs)
      else if c = CHR ''{'' then map_option (Cons LBrace) (lex None cs)
      else if c = CHR ''}'' then map_option (Cons RBrace) (lex None cs)
      else if c = CHR '','' then map_option (Cons Comma) (lex None cs)
      else if c = CHR '':'' then map_option (Cons Colon) (lex None cs)
      else if c = CHR 0x22 then lex (Some []) cs
      else None)"
| "lex (Some acc) (c # cs) =
     (if c = CHR 0x22 then map_option (Cons (TStr (rev acc))) (lex None cs)
      else if c = CHR 0x5C then
        (case cs of
           [] \<Rightarrow> None
         | e # cs' \<Rightarrow>
             (if e = CHR ''u'' then
                (case cs' of
                   a # b # h # l # cs'' \<Rightarrow>
                     (if a = CHR ''0'' \<and> b = CHR ''0'' then
                        (case (digit_val h, digit_val l) of
                           (Some x, Some y) \<Rightarrow> lex (Some (char_of (16 * x + y) # acc)) cs''
                         | _ \<Rightarrow> None)
                      else None)
                 | _ \<Rightarrow> None)
              else (case unescape e of
                      None \<Rightarrow> None
                    | Some d \<Rightarrow> lex (Some (d # acc)) cs')))
      else if (of_char c :: nat) < 32 then None
      else lex (Some (c # acc)) cs)"

text \<open>
  The parser, by recursive descent on the tokens. The first argument bounds the depth of
  the recursion; \<open>json_parse\<close> starts it with the number of tokens, and every call uses up
  at least one.
\<close>

fun parse_value :: "nat \<Rightarrow> token list \<Rightarrow> (json \<times> token list) option"
  and parse_elements :: "nat \<Rightarrow> token list \<Rightarrow> (json list \<times> token list) option"
  and parse_members :: "nat \<Rightarrow> token list \<Rightarrow> ((string \<times> json) list \<times> token list) option"
where
  "parse_value 0 ts = None"
| "parse_value (Suc n) ts =
     (case ts of
        TStr s # ts' \<Rightarrow> Some (JString s, ts')
      | LBrack # RBrack # ts' \<Rightarrow> Some (JArray [], ts')
      | LBrack # ts' \<Rightarrow> map_option (\<lambda>(vs, r). (JArray vs, r)) (parse_elements n ts')
      | LBrace # RBrace # ts' \<Rightarrow> Some (JObject [], ts')
      | LBrace # ts' \<Rightarrow> map_option (\<lambda>(ms, r). (JObject ms, r)) (parse_members n ts')
      | _ \<Rightarrow> None)"
| "parse_elements 0 ts = None"
| "parse_elements (Suc n) ts =
     (case parse_value n ts of
        None \<Rightarrow> None
      | Some (v, ts') \<Rightarrow>
          (case ts' of
             Comma # ts'' \<Rightarrow> map_option (\<lambda>(vs, r). (v # vs, r)) (parse_elements n ts'')
           | RBrack # ts'' \<Rightarrow> Some ([v], ts'')
           | _ \<Rightarrow> None))"
| "parse_members 0 ts = None"
| "parse_members (Suc n) ts =
     (case ts of
        TStr k # Colon # ts' \<Rightarrow>
          (case parse_value n ts' of
             None \<Rightarrow> None
           | Some (v, ts'') \<Rightarrow>
               (case ts'' of
                  Comma # ts3 \<Rightarrow> map_option (\<lambda>(ms, r). ((k, v) # ms, r)) (parse_members n ts3)
                | RBrace # ts3 \<Rightarrow> Some ([(k, v)], ts3)
                | _ \<Rightarrow> None))
      | _ \<Rightarrow> None)"

definition json_parse :: "string \<Rightarrow> json option" where
  "json_parse text =
     (case lex None text of
        None \<Rightarrow> None
      | Some ts \<Rightarrow>
          (case parse_value (length ts) ts of
             Some (v, []) \<Rightarrow> Some v
           | _ \<Rightarrow> None))"

text \<open>The JSON value a dictionary of strings stands for.\<close>

definition to_json :: "dict \<Rightarrow> json" where
  "to_json d = JObject (map (\<lambda>(k, v). (k, JString v)) d)"

text \<open>The file at a path, read as JSON.\<close>

definition parsed_file :: "world \<Rightarrow> string \<Rightarrow> json option" where
  "parsed_file s path = (case files s path of None \<Rightarrow> None | Some text \<Rightarrow> json_parse text)"

subsection \<open>The text of an array and its tokens\<close>

text \<open>
  The text that the writes of \<^verbatim>\<open>main\<close> add up to, given the texts of the elements, and
  the tokens a reader has to find in it: those of the members of a dictionary, of a
  dictionary, of the elements of an array of dictionaries, and of the array.
\<close>

definition array_text :: "string list \<Rightarrow> string" where
  "array_text elems = ''[\<newline>'' @ join '',\<newline>'' elems @ ''\<newline>'' @ '']''"

fun member_tokens :: "dict \<Rightarrow> token list" where
  "member_tokens [] = []"
| "member_tokens ((k, v) # ms) =
     TStr k # Colon # TStr v # (if ms = [] then [] else Comma # member_tokens ms)"

definition object_tokens :: "dict \<Rightarrow> token list" where
  "object_tokens d = LBrace # member_tokens d @ [RBrace]"

fun element_tokens :: "dict list \<Rightarrow> token list" where
  "element_tokens [] = []"
| "element_tokens (d # ds) =
     object_tokens d @ (if ds = [] then [] else Comma # element_tokens ds)"

definition array_tokens :: "dict list \<Rightarrow> token list" where
  "array_tokens ds = LBrack # element_tokens ds @ [RBrack]"

section \<open>Properties\<close>

subsection \<open>Hexadecimal text reads back\<close>

lemma hexdigit_val: "n < 16 \<Longrightarrow> digit_val (hexdigit n) = Some n"
proof -
  assume "n < 16"
  then consider "n = 0" | "n = 1" | "n = 2" | "n = 3" | "n = 4" | "n = 5" | "n = 6" | "n = 7"
    | "n = 8" | "n = 9" | "n = 10" | "n = 11" | "n = 12" | "n = 13" | "n = 14" | "n = 15"
    by atomize_elim arith
  then show ?thesis
    by cases (simp_all add: hexdigit_def digit_val_def)
qed

lemma fromhex_hex_byte:
  "fromhex (hex_byte b @ cs) = map_option (Cons b) (fromhex cs)"
proof -
  have lt: "unat b < 256" using unsigned_less [of b] by simp
  then have h: "unat b div 16 < 16" and l: "unat b mod 16 < 16" by simp_all
  have "(of_nat (16 * (unat b div 16) + unat b mod 16) :: byte) = b"
    by simp
  then show ?thesis
    by (cases "fromhex cs") (simp_all add: hex_byte_def hexdigit_val [OF h] hexdigit_val [OF l])
qed

lemma fromhex_hex: "fromhex (hex bs) = Some bs"
  by (induction bs) (simp_all add: hex_def fromhex_hex_byte)

subsection \<open>The fields of the records\<close>

lemma upt_8: "[0..<8] = [0, 1, 2, 3, 4, 5, 6, 7 :: nat]"
  by code_simp

lemma length_records: "length (records H) = 16"
  by (simp add: records_def)

lemma records_nth_salt: "i < 8 \<Longrightarrow> records H ! i = salt_test H i"
  by (simp add: records_def nth_append)

lemma records_nth_persona: "i < 8 \<Longrightarrow> records H ! (8 + i) = persona_test H i"
  by (simp add: records_def nth_append)

lemma records_cases:
  assumes "i < 16"
  obtains "i < 8" and "records H ! i = salt_test H i"
  | j where "j < 8" and "i = 8 + j" and "records H ! i = persona_test H j"
proof (cases "i < 8")
  case True
  then show ?thesis using that(1) records_nth_salt by blast
next
  case False
  with assms have "i - 8 < 8" and "i = 8 + (i - 8)" by simp_all
  then show ?thesis using that(2) records_nth_persona by metis
qed

lemma salt_test_fields:
  "field (salt_test H i) ''hash'' = Some ''blake2s''"
  "field (salt_test H i) ''in'' = Some []"
  "field (salt_test H i) ''key'' = Some (hex key_bytes)"
  "field (salt_test H i) ''persona'' = Some []"
  "field (salt_test H i) ''salt'' = Some (hex (bytearray_range (i + 1)))"
  "field (salt_test H i) ''out'' = Some (hex (H [] key_bytes (bytearray_range (i + 1)) []))"
  by (simp_all add: salt_test_def field_def hexdigest_def Let_def)

lemma persona_test_fields:
  "field (persona_test H i) ''hash'' = Some ''blake2s''"
  "field (persona_test H i) ''in'' = Some []"
  "field (persona_test H i) ''key'' = Some (hex key_bytes)"
  "field (persona_test H i) ''persona'' = Some (hex (bytearray_range (i + 1)))"
  "field (persona_test H i) ''salt'' = Some []"
  "field (persona_test H i) ''out'' = Some (hex (H [] key_bytes [] (bytearray_range (i + 1))))"
  by (simp_all add: persona_test_def field_def hexdigest_def Let_def)

lemma hex_eq_Nil: "hex bs = [] \<longleftrightarrow> bs = []"
  by (cases bs) (simp_all add: hex_def hex_byte_def)

lemma length_bytearray_range: "length (bytearray_range n) = n"
  by (simp add: bytearray_range_def)

subsection \<open>What \<^verbatim>\<open>main\<close> does to the world\<close>

lemma for_each_map: "for_each (map f xs) body = for_each xs (\<lambda>i. body (f i))"
proof
  fix s show "for_each (map f xs) body s = for_each xs (\<lambda>i. body (f i)) s"
    by (induction xs arbitrary: s) (auto split: prod.splits sum.splits)
qed

lemma for_each_append:
  "io_then (for_each xs body) (for_each ys body) = for_each (xs @ ys) body"
proof
  fix s show "io_then (for_each xs body) (for_each ys body) s = for_each (xs @ ys) body s"
  proof (induction xs arbitrary: s)
    case Nil
    then show ?case by (simp add: io_then_def io_bind_def)
  next
    case (Cons x xs)
    show ?case
    proof (cases "body x s")
      case (Pair r s')
      then show ?thesis using Cons [of s']
        by (cases r) (simp_all add: io_then_def io_bind_def)
    qed
  qed
qed

lemma for_each_single: "for_each [x] body = body x"
proof
  fix s show "for_each [x] body s = body x s"
    by (cases "body x s") (auto split: sum.splits)
qed

lemma io_then_assoc: "io_then (io_then a b) c = io_then a (io_then b c)"
proof
  fix s show "io_then (io_then a b) c s = io_then a (io_then b c) s"
    by (auto simp: io_then_def io_bind_def split: prod.splits sum.splits)
qed

text \<open>The writes of \<^verbatim>\<open>main\<close> are the writes of \<open>chunks\<close>, one after the other.\<close>

lemma main_chunks:
  "main H output_fn =
     io_bind (open_w output_fn) (\<lambda>fd. io_then (for_each (chunks H) (fd_write fd)) (fd_close fd))"
proof -
  have "io_then (for_each (chunks H) (fd_write fd)) (fd_close fd) =
       io_then (fd_write fd ''[\<newline>'')
      (io_then (for_each [0..<8] (\<lambda>i.
                  fd_write fd (dumps (salt_test H i) @ '',\<newline>'')))
      (io_then (for_each [0..<8] (\<lambda>i.
                  fd_write fd (dumps (persona_test H i) @ (if i < 7 then '','' else []) @ ''\<newline>'')))
      (io_then (fd_write fd '']'')
               (fd_close fd))))" for fd
  proof -
    let ?w = "fd_write fd"
    let ?a = "map (\<lambda>i. dumps (salt_test H i) @ '',\<newline>'') [0..<8]"
    let ?b = "map (\<lambda>i. dumps (persona_test H i) @ (if i < 7 then '','' else []) @ ''\<newline>'') [0..<8]"
    have "for_each (chunks H) ?w =
          io_then (for_each [''[\<newline>''] ?w)
            (io_then (for_each ?a ?w) (io_then (for_each ?b ?w) (for_each ['']''] ?w)))"
      unfolding for_each_append chunks_def by simp
    then show ?thesis
      by (simp only: for_each_single for_each_map io_then_assoc)
  qed
  then show ?thesis by (simp add: main_def)
qed

lemma length_chunks: "length (chunks H) = 18"
  by (simp add: chunks_def)

subsection \<open>Fields common to all records\<close>

lemma decoded_hex: "field r k = Some (hex bs) \<Longrightarrow> decoded r k = Some bs"
  by (simp add: decoded_def fromhex_hex)

lemma decoded_empty: "field r k = Some [] \<Longrightarrow> decoded r k = Some []"
  by (simp add: decoded_def)

lemma field_key_records: "i < 16 \<Longrightarrow> field (records H ! i) ''key'' = Some (hex key_bytes)"
proof (erule records_cases [of i H])
  assume "records H ! i = salt_test H i"
  then show ?thesis by (simp only: salt_test_fields)
next
  fix j assume "records H ! i = persona_test H j"
  then show ?thesis by (simp only: persona_test_fields)
qed


lemma field_hash_records: "i < 16 \<Longrightarrow> field (records H ! i) ''hash'' = Some ''blake2s''"
proof (erule records_cases [of i H])
  assume "records H ! i = salt_test H i"
  then show ?thesis by (simp only: salt_test_fields)
next
  fix j assume "records H ! i = persona_test H j"
  then show ?thesis by (simp only: persona_test_fields)
qed

lemma field_in_records: "i < 16 \<Longrightarrow> field (records H ! i) ''in'' = Some []"
proof (erule records_cases [of i H])
  assume "records H ! i = salt_test H i"
  then show ?thesis by (simp only: salt_test_fields)
next
  fix j assume "records H ! i = persona_test H j"
  then show ?thesis by (simp only: persona_test_fields)
qed

subsection \<open>The lexer reads what the encoder writes\<close>

lemma of_char_lt_256: "(of_char c :: nat) < 256"
  by (cases c) (simp add: of_char_Char bit_simps horner_sum_eq_sum)

lemma lex_escape_char:
  "lex (Some acc) (escape_char c @ rest) = lex (Some (c # acc)) rest"
proof -
  consider (bs) "c = CHR 0x5C" | (qu) "c = CHR 0x22" | (b) "c = CHR 0x08" | (f) "c = CHR 0x0C"
    | (n) "c = CHR 0x0A" | (r) "c = CHR 0x0D" | (t) "c = CHR 0x09"
    | (u) "c \<notin> {CHR 0x5C, CHR 0x22, CHR 0x08, CHR 0x0C, CHR 0x0A, CHR 0x0D, CHR 0x09}"
          "(of_char c :: nat) < 32 \<or> 126 < (of_char c :: nat)"
    | (plain) "c \<notin> {CHR 0x5C, CHR 0x22, CHR 0x08, CHR 0x0C, CHR 0x0A, CHR 0x0D, CHR 0x09}"
          "\<not> ((of_char c :: nat) < 32 \<or> 126 < (of_char c :: nat))"
    by blast
  then show ?thesis
  proof cases
    case u
    let ?n = "of_char c :: nat"
    have lt: "?n < 256" by (rule of_char_lt_256)
    then have h: "?n div 16 < 16" and l: "?n mod 16 < 16"
      by (simp_all add: div_less_iff_less_mult)
    have e: "escape_char c = [CHR 0x5C, CHR ''u'', CHR ''0'', CHR ''0'',
              hexdigit (?n div 16), hexdigit (?n mod 16)]"
      using u by (simp add: escape_char_def)
    have "char_of (16 * (?n div 16) + ?n mod 16) = c" by simp
    then show ?thesis
      by (simp add: e hexdigit_val [OF h] hexdigit_val [OF l])
  next
    case plain
    then show ?thesis by (simp add: escape_char_def)
  qed (simp_all add: escape_char_def unescape_def)
qed


lemma lex_escaped:
  "lex (Some acc) (concat (map escape_char s) @ rest) = lex (Some (rev s @ acc)) rest"
  by (induction s arbitrary: acc) (simp_all add: lex_escape_char)

lemma lex_encode_str:
  "lex None (encode_str s @ rest) = map_option (Cons (TStr s)) (lex None rest)"
proof -
  have "lex None (encode_str s @ rest) =
        lex (Some []) (concat (map escape_char s) @ CHR 0x22 # rest)"
    by (simp add: encode_str_def is_ws_def)
  also have "\<dots> = lex (Some (rev s)) (CHR 0x22 # rest)"
    by (simp only: lex_escaped append_Nil2)
  finally show ?thesis by simp
qed

lemma join_Cons: "join sep (x # xs) = x @ (if xs = [] then [] else sep @ join sep xs)"
  by (cases xs) simp_all

lemma lex_member:
  "lex None (encode_str k @ '': '' @ encode_str v @ rest) =
   map_option (\<lambda>ts. TStr k # Colon # TStr v # ts) (lex None rest)"
  by (simp add: lex_encode_str is_ws_def option.map_comp comp_def)

lemma lex_members:
  "lex None (join '',\<newline> '' (map (\<lambda>(k, v). encode_str k @ '': '' @ encode_str v) d) @ rest) =
   map_option (\<lambda>ts. member_tokens d @ ts) (lex None rest)"
proof (induction d)
  case Nil
  then show ?case by (simp add: option.map_ident)
next
  case (Cons kv d)
  obtain k v where kv: "kv = (k, v)" by (cases kv)
  show ?case
  proof (cases "d = []")
    case True
    then show ?thesis
      using lex_member [of k v rest] by (simp add: kv)
  next
    case False
    have "lex None (join '',\<newline> '' (map (\<lambda>(k, v). encode_str k @ '': '' @ encode_str v) (kv # d)) @ rest) =
          lex None (encode_str k @ '': '' @ encode_str v @
            ('',\<newline> '' @ join '',\<newline> '' (map (\<lambda>(k, v). encode_str k @ '': '' @ encode_str v) d) @ rest))"
      using False by (simp add: kv join_Cons)
    also have "\<dots> = map_option (\<lambda>ts. TStr k # Colon # TStr v # ts)
          (lex None ('',\<newline> '' @ join '',\<newline> '' (map (\<lambda>(k, v). encode_str k @ '': '' @ encode_str v) d) @ rest))"
      by (rule lex_member)
    also have "lex None ('',\<newline> '' @ join '',\<newline> '' (map (\<lambda>(k, v). encode_str k @ '': '' @ encode_str v) d) @ rest) =
          map_option (Cons Comma) (map_option (\<lambda>ts. member_tokens d @ ts) (lex None rest))"
      using Cons.IH by (simp add: is_ws_def)
    finally show ?thesis
      using False by (simp add: kv option.map_comp comp_def)
  qed
qed

lemma lex_dumps:
  "lex None (dumps d @ rest) = map_option (\<lambda>ts. object_tokens d @ ts) (lex None rest)"
proof (cases "d = []")
  case True
  then show ?thesis
    by (simp add: dumps_def object_tokens_def is_ws_def option.map_comp comp_def)
next
  case False
  have "lex None (dumps d @ rest) =
        map_option (Cons LBrace)
          (lex None (join '',\<newline> '' (map (\<lambda>(k, v). encode_str k @ '': '' @ encode_str v) d) @
             (''\<newline>}'' @ rest)))"
    using False by (simp add: dumps_def is_ws_def)
  also have "\<dots> = map_option (Cons LBrace)
        (map_option (\<lambda>ts. member_tokens d @ ts) (lex None (''\<newline>}'' @ rest)))"
    by (simp only: lex_members)
  finally show ?thesis
    by (simp add: object_tokens_def is_ws_def option.map_comp comp_def)
qed

lemma lex_elements:
  "lex None (join '',\<newline>'' (map dumps ds) @ rest) =
   map_option (\<lambda>ts. element_tokens ds @ ts) (lex None rest)"
proof (induction ds)
  case Nil
  then show ?case by (simp add: option.map_ident)
next
  case (Cons d ds)
  show ?case
  proof (cases "ds = []")
    case True
    then show ?thesis by (simp add: lex_dumps)
  next
    case False
    have "lex None (join '',\<newline>'' (map dumps (d # ds)) @ rest) =
          lex None (dumps d @ ('',\<newline>'' @ join '',\<newline>'' (map dumps ds) @ rest))"
      using False by (simp add: join_Cons)
    also have "\<dots> = map_option (\<lambda>ts. object_tokens d @ ts)
          (lex None ('',\<newline>'' @ join '',\<newline>'' (map dumps ds) @ rest))"
      by (rule lex_dumps)
    also have "lex None ('',\<newline>'' @ join '',\<newline>'' (map dumps ds) @ rest) =
          map_option (Cons Comma) (map_option (\<lambda>ts. element_tokens ds @ ts) (lex None rest))"
      using Cons.IH by (simp add: is_ws_def)
    finally show ?thesis
      using False by (simp add: option.map_comp comp_def)
  qed
qed

lemma lex_array_text: "lex None (array_text (map dumps ds)) = Some (array_tokens ds)"
proof -
  have "lex None (array_text (map dumps ds)) =
        map_option (Cons LBrack) (lex None (join '',\<newline>'' (map dumps ds) @ ''\<newline>]''))"
    by (simp add: array_text_def is_ws_def)
  also have "\<dots> = map_option (Cons LBrack)
        (map_option (\<lambda>ts. element_tokens ds @ ts) (lex None ''\<newline>]''))"
    by (simp only: lex_elements)
  finally show ?thesis
    by (simp add: array_tokens_def is_ws_def)
qed

subsection \<open>The parser reads the tokens of an array of dictionaries\<close>

lemma parse_value_string: "0 < n \<Longrightarrow> parse_value n (TStr s # ts) = Some (JString s, ts)"
  by (cases n) simp_all

lemma parse_members_ok:
  "d \<noteq> [] \<Longrightarrow> length d < n \<Longrightarrow>
   parse_members n (member_tokens d @ RBrace # rest) =
     Some (map (\<lambda>(k, v). (k, JString v)) d, rest)"
proof (induction d arbitrary: n)
  case Nil
  then show ?case by simp
next
  case (Cons kv d)
  obtain k v where kv: "kv = (k, v)" by (cases kv)
  from Cons.prems obtain m where n: "n = Suc m" and m: "length d < m"
    by (cases n) auto
  then have pos: "0 < m" by simp
  show ?case
  proof (cases "d = []")
    case True
    then show ?thesis
      by (simp add: kv n parse_value_string [OF pos])
  next
    case False
    then have "parse_members m (member_tokens d @ RBrace # rest) =
      Some (map (\<lambda>(k, v). (k, JString v)) d, rest)"
      using Cons.IH m by blast
    then show ?thesis
      using False by (simp add: kv n parse_value_string [OF pos])
  qed
qed

lemma parse_object_ok:
  assumes "length d + 1 < n"
  shows "parse_value n (object_tokens d @ rest) = Some (to_json d, rest)"
proof -
  from assms obtain m where n: "n = Suc m" and m: "length d < m"
    by (cases n) auto
  show ?thesis
  proof (cases d)
    case Nil
    then show ?thesis by (simp add: n object_tokens_def to_json_def)
  next
    case (Cons kv d')
    obtain k v where kv: "kv = (k, v)" by (cases kv)
    have "d \<noteq> []" using Cons by simp
    from parse_members_ok [OF this m, of rest]
    have "parse_members m (TStr k # Colon # TStr v #
            (if d' = [] then [] else Comma # member_tokens d') @ RBrace # rest) =
          Some (map (\<lambda>(k, v). (k, JString v)) d, rest)"
      by (simp add: Cons kv)
    then show ?thesis
      by (simp add: n object_tokens_def to_json_def Cons kv)
  qed
qed

lemma parse_elements_ok:
  "ds \<noteq> [] \<Longrightarrow> (\<And>d. d \<in> set ds \<Longrightarrow> length ds + length d + 2 \<le> n) \<Longrightarrow>
   parse_elements n (element_tokens ds @ RBrack # rest) = Some (map to_json ds, rest)"
proof (induction ds arbitrary: n)
  case Nil
  then show ?case by simp
next
  case (Cons d ds)
  have "length (d # ds) + length d + 2 \<le> n" using Cons.prems(2) by simp
  then obtain m where n: "n = Suc m" and m: "length ds + length d + 2 \<le> m"
    by (cases n) auto
  then have fuel: "length d + 1 < m" by simp
  show ?case
  proof (cases "ds = []")
    case True
    then show ?thesis
      using parse_object_ok [OF fuel, of "RBrack # rest"] by (simp add: n)
  next
    case False
    have "\<And>d'. d' \<in> set ds \<Longrightarrow> length ds + length d' + 2 \<le> m"
      using Cons.prems(2) n by fastforce
    then have "parse_elements m (element_tokens ds @ RBrack # rest) = Some (map to_json ds, rest)"
      using Cons.IH False by blast
    then show ?thesis
      using False parse_object_ok [OF fuel, of "Comma # element_tokens ds @ RBrack # rest"]
      by (simp add: n)
  qed
qed

lemma length_element_tokens_ge: "2 * length ds \<le> length (element_tokens ds) + 1"
  by (induction ds) (simp_all add: object_tokens_def)

lemma length_member_tokens_ge: "length d \<le> length (member_tokens d)"
  by (induction d) auto

lemma element_tokens_fuel:
  "d \<in> set ds \<Longrightarrow> length ds + length d + 1 \<le> length (element_tokens ds)"
proof (induction ds)
  case Nil
  then show ?case by simp
next
  case (Cons e ds)
  have e: "length e + 2 \<le> length (object_tokens e)"
    using length_member_tokens_ge [of e] by (simp add: object_tokens_def)
  show ?case
  proof (cases "ds = []")
    case True
    then show ?thesis using Cons.prems e by simp
  next
    case False
    show ?thesis
    proof (cases "d = e")
      case True
      then show ?thesis
        using e False length_element_tokens_ge [of ds] by simp
    next
      case ne: False
      then have "d \<in> set ds" using Cons.prems by simp
      then show ?thesis using Cons.IH e False by simp
    qed
  qed
qed

lemma parse_array_tokens:
  "parse_value (length (array_tokens ds)) (array_tokens ds) = Some (JArray (map to_json ds), [])"
proof (cases ds)
  case Nil
  then show ?thesis by (simp add: array_tokens_def)
next
  case (Cons d ds')
  define m where "m = Suc (length (element_tokens ds))"
  have len: "length (array_tokens ds) = Suc m"
    by (simp add: array_tokens_def m_def)
  have ne: "ds \<noteq> []" using Cons by simp
  have fuel: "length ds + length e + 2 \<le> m" if "e \<in> set ds" for e
    using element_tokens_fuel [OF that] by (simp add: m_def)
  have p: "parse_elements m (element_tokens ds @ [RBrack]) = Some (map to_json ds, [])"
    using ne fuel by (rule parse_elements_ok)
  obtain ts where ts: "element_tokens ds @ [RBrack] = LBrace # ts"
    by (simp add: Cons object_tokens_def)
  have "parse_value (Suc m) (LBrack # LBrace # ts) =
        map_option (\<lambda>(vs, r). (JArray vs, r)) (parse_elements m (LBrace # ts))"
    by simp
  then have "parse_value (Suc m) (LBrack # element_tokens ds @ [RBrack]) =
        Some (JArray (map to_json ds), [])"
    using p by (simp only: ts) simp
  then show ?thesis
    by (simp only: len) (simp only: array_tokens_def)
qed


lemma json_parse_array_text:
  "json_parse (array_text (map dumps ds)) = Some (JArray (map to_json ds))"
  unfolding json_parse_def
  by (simp only: lex_array_text parse_array_tokens option.case prod.case list.case)

lemma concat_chunks: "concat (chunks H) = array_text (map dumps (records H))"
  by (simp add: chunks_def records_def array_text_def upt_8)

subsection \<open>What the writes and the close do to the world\<close>

lemma writingI:
  assumes "handles s fd = Some \<lparr>name = path, pending = pend, line_buffering = (path \<in> ttys s0)\<rparr>"
    and "files s path = Some dev"
    and "capacity s0 = None \<Longrightarrow> capacity s = None"
    and "\<And>c0. capacity s0 = Some c0 \<Longrightarrow> length dev \<le> c0 \<and> capacity s = Some (c0 - length dev)"
    and "\<And>q. q \<noteq> path \<Longrightarrow> files s q = files s0 q"
    and "\<And>g. g \<noteq> fd \<Longrightarrow> handles s g = handles s0 g"
    and "next_fd s = next_fd s0" and "unwritable s = unwritable s0" and "ttys s = ttys s0"
    and "stdout s = stdout s0"
  shows "writing s0 fd path dev pend s"
  using assms unfolding writing_def by (cases "capacity s0") simp_all

lemma writingD:
  assumes "writing s0 fd path dev pend s"
  shows "handles s fd = Some \<lparr>name = path, pending = pend, line_buffering = (path \<in> ttys s0)\<rparr>"
    and "files s path = Some dev"
    and "capacity s0 = None \<Longrightarrow> capacity s = None"
    and "\<And>c0. capacity s0 = Some c0 \<Longrightarrow> length dev \<le> c0 \<and> capacity s = Some (c0 - length dev)"
    and "\<And>q. q \<noteq> path \<Longrightarrow> files s q = files s0 q"
    and "\<And>g. g \<noteq> fd \<Longrightarrow> handles s g = handles s0 g"
    and "next_fd s = next_fd s0" and "unwritable s = unwritable s0" and "ttys s = ttys s0"
    and "stdout s = stdout s0"
  using assms unfolding writing_def by (cases "capacity s0"; simp)+

text \<open>Adding text to the pending text.\<close>

lemma writing_buffer:
  assumes "writing s0 fd path dev pend s"
  shows "writing s0 fd path dev (pend @ str)
           (s\<lparr>handles := (handles s)(fd \<mapsto>
               \<lparr>name = path, pending = pend @ str, line_buffering = (path \<in> ttys s0)\<rparr>)\<rparr>)"
  using writingD [OF assms] by (intro writingI) simp_all


text \<open>Emptying the buffer: all of it goes through, or the device is left full.\<close>

lemma fd_flush_cases:
  assumes w: "writing s0 fd path dev pend s"
  obtains (ok) s' where "fd_flush who fd s = (Inr (), s')"
      and "writing s0 fd path (dev @ pend) [] s'"
      and "\<forall>c0. capacity s0 = Some c0 \<longrightarrow> length (dev @ pend) \<le> c0"
  | (fail) s' c0 where "fd_flush who fd s = (Inl (OSError who), s')"
      and "capacity s0 = Some c0" and "c0 < length (dev @ pend)"
      and "writing s0 fd path (take c0 (dev @ pend)) (drop (c0 - length dev) pend) s'"
proof -
  note d = writingD [OF w]
  define n where "n = (case capacity s of None \<Rightarrow> length pend | Some c \<Rightarrow> min c (length pend))"
  define s' where "s' = snd (fd_flush who fd s)"
  have r: "fst (fd_flush who fd s) = (if n = length pend then Inr () else Inl (OSError who))"
    by (simp add: fd_flush_def device_write_def Let_def d(1) n_def)
  have h: "handles s' = (handles s)(fd \<mapsto>
      \<lparr>name = path, pending = drop n pend, line_buffering = (path \<in> ttys s0)\<rparr>)"
    by (simp add: s'_def fd_flush_def device_write_def Let_def d(1) n_def)
  have f: "files s' = (files s)(path \<mapsto> dev @ take n pend)"
    by (simp add: s'_def fd_flush_def device_write_def Let_def d(1,2) n_def)
  have c: "capacity s' = map_option (\<lambda>c. c - n) (capacity s)"
    by (simp add: s'_def fd_flush_def device_write_def Let_def d(1) n_def)
  have o: "next_fd s' = next_fd s" "unwritable s' = unwritable s" "ttys s' = ttys s"
    "stdout s' = stdout s"
    by (simp_all add: s'_def fd_flush_def device_write_def Let_def d(1))
  have eq: "fd_flush who fd s = (fst (fd_flush who fd s), s')"
    by (simp add: s'_def)
  show ?thesis
  proof (cases "\<forall>c0. capacity s0 = Some c0 \<longrightarrow> length (dev @ pend) \<le> c0")
    case True
    have n: "n = length pend"
    proof (cases "capacity s0")
      case None
      then show ?thesis using d(3) by (simp add: n_def)
    next
      case (Some c0)
      then show ?thesis using d(4) [OF Some] True by (simp add: n_def)
    qed
    have "writing s0 fd path (dev @ pend) [] s'"
    proof (rule writingI)
      show "handles s' fd = Some \<lparr>name = path, pending = [], line_buffering = (path \<in> ttys s0)\<rparr>"
        by (simp add: h n)
      show "files s' path = Some (dev @ pend)" by (simp add: f n)
      show "capacity s' = None" if "capacity s0 = None"
        using d(3) [OF that] by (simp add: c)
      show "length (dev @ pend) \<le> c0 \<and> capacity s' = Some (c0 - length (dev @ pend))"
        if "capacity s0 = Some c0" for c0
        using d(4) [OF that] True that by (simp add: c n)
      show "files s' q = files s0 q" if "q \<noteq> path" for q
        using d(5) [OF that] that by (simp add: f)
      show "handles s' g = handles s0 g" if "g \<noteq> fd" for g
        using d(6) [OF that] that by (simp add: h)
    qed (simp_all add: o d)
    moreover have "fd_flush who fd s = (Inr (), s')"
      using eq r n by simp
    ultimately show ?thesis using ok True by blast
  next
    case False
    then obtain c0 where c0: "capacity s0 = Some c0" and lt: "c0 < length (dev @ pend)"
      by (auto simp: not_le)
    note k = d(4) [OF c0]
    have nlt': "c0 - length dev < length pend"
      using k lt by (simp add: less_diff_conv2)
    have n: "n = c0 - length dev" and nlt: "n < length pend"
      using k nlt' by (simp_all add: n_def)
    have t: "take c0 (dev @ pend) = dev @ take n pend"
      using k by (simp add: n)
    have "writing s0 fd path (take c0 (dev @ pend)) (drop (c0 - length dev) pend) s'"
    proof (rule writingI)
      show "handles s' fd = Some \<lparr>name = path, pending = drop (c0 - length dev) pend,
              line_buffering = (path \<in> ttys s0)\<rparr>"
        by (simp add: h n)
      show "files s' path = Some (take c0 (dev @ pend))" by (simp only: f t fun_upd_same)
      show "capacity s' = None" if "capacity s0 = None"
        using that c0 by simp
      show "length (take c0 (dev @ pend)) \<le> c1 \<and>
            capacity s' = Some (c1 - length (take c0 (dev @ pend)))"
        if "capacity s0 = Some c1" for c1
        using k lt that c0 by (simp add: c n)
      show "files s' q = files s0 q" if "q \<noteq> path" for q
        using d(5) [OF that] that by (simp add: f)
      show "handles s' g = handles s0 g" if "g \<noteq> fd" for g
        using d(6) [OF that] that by (simp add: h)
    qed (simp_all add: o d)
    moreover have "fd_flush who fd s = (Inl (OSError who), s')"
      using eq r nlt by simp
    ultimately show ?thesis using fail c0 lt by blast
  qed
qed


text \<open>One \<^verbatim>\<open>fd.write\<close>.\<close>

lemma fd_write_cases:
  assumes w: "writing s0 fd path dev pend s"
  obtains (ok) s' dev' pend' where "fd_write fd str s = (Inr (), s')"
      and "writing s0 fd path dev' pend' s'" and "dev' @ pend' = dev @ pend @ str"
      and "path \<notin> ttys s0 \<and> length (pend @ str) < buffer_size \<longrightarrow> dev' = dev"
      and "length pend' \<le> length (pend @ str)"
  | (fail) s' c0 pend' where "fd_write fd str s = (Inl (OSError Write), s')"
      and "capacity s0 = Some c0" and "c0 < length (dev @ pend @ str)"
      and "writing s0 fd path (take c0 (dev @ pend @ str)) pend' s'"
      and "path \<in> ttys s0 \<or> buffer_size \<le> length (pend @ str)"
proof -
  note d = writingD [OF w]
  let ?s1 = "s\<lparr>handles := (handles s)(fd \<mapsto>
               \<lparr>name = path, pending = pend @ str, line_buffering = (path \<in> ttys s0)\<rparr>)\<rparr>"
  let ?now = "(path \<in> ttys s0 \<and> (CHR 0x0A \<in> set str \<or> CHR 0x0D \<in> set str))
                 \<or> buffer_size \<le> length (pend @ str)"
  have w1: "writing s0 fd path dev (pend @ str) ?s1"
    by (rule writing_buffer [OF w])
  have e: "fd_write fd str s = (if ?now then fd_flush Write fd ?s1 else (Inr (), ?s1))"
    by (simp add: fd_write_def d(1) Let_def)
  show ?thesis
  proof (cases ?now)
    case False
    then have "fd_write fd str s = (Inr (), ?s1)" unfolding e by (rule if_not_P)
    moreover have "dev @ (pend @ str) = dev @ pend @ str" by simp
    moreover have "length (pend @ str) \<le> length (pend @ str)" by simp
    ultimately show ?thesis using ok w1 by blast
  next
    case True
    then have fl: "fd_write fd str s = fd_flush Write fd ?s1" unfolding e by (rule if_P)
    from True have big: "path \<in> ttys s0 \<or> buffer_size \<le> length (pend @ str)" by blast
    from w1 show ?thesis
    proof (cases rule: fd_flush_cases [where who = Write])
      case (ok s')
      have "(dev @ pend @ str) @ [] = dev @ pend @ str" by simp
      moreover have "path \<notin> ttys s0 \<and> length (pend @ str) < buffer_size \<longrightarrow> dev @ pend @ str = dev"
        using big by auto
      moreover have "writing s0 fd path (dev @ pend @ str) [] s'"
        using ok(2) by simp
      moreover have "length ([]::string) \<le> length (pend @ str)" by simp
      ultimately show ?thesis using that(1) ok(1) fl by metis
    next
      case (fail s' c0)
      have "c0 < length (dev @ pend @ str)" using fail(3) by simp
      moreover have "writing s0 fd path (take c0 (dev @ pend @ str))
                       (drop (c0 - length dev) (pend @ str)) s'"
        using fail(4) by simp
      ultimately show ?thesis using that(2) fail(1,2) fl big by metis
    qed
  qed
qed


text \<open>All the writes of a loop.\<close>

lemma writes_result:
  assumes "writing s0 fd path dev pend s"
  shows "(\<exists>s' dev' pend'.
            for_each strs (fd_write fd) s = (Inr (), s') \<and>
            writing s0 fd path dev' pend' s' \<and>
            dev' @ pend' = dev @ pend @ concat strs \<and>
            length pend' \<le> length (pend @ concat strs) \<and>
            (path \<notin> ttys s0 \<and> length (pend @ concat strs) < buffer_size \<longrightarrow> dev' = dev)) \<or>
         (\<exists>s' c0 pend'.
            for_each strs (fd_write fd) s = (Inl (OSError Write), s') \<and>
            capacity s0 = Some c0 \<and> c0 < length (dev @ pend @ concat strs) \<and>
            writing s0 fd path (take c0 (dev @ pend @ concat strs)) pend' s' \<and>
            (path \<in> ttys s0 \<or> buffer_size \<le> length (pend @ concat strs)))"
  using assms
proof (induction strs arbitrary: s dev pend)
  case Nil
  then show ?case by auto
next
  case (Cons str strs)
  from Cons.prems show ?case
  proof (cases rule: fd_write_cases [where str = str])
    case (ok s1 dev1 pend1)
    have e1: "dev1 @ pend1 @ concat strs = dev @ pend @ concat (str # strs)"
      using ok(3) by (metis append_assoc concat.simps(2))
    have l1: "length (pend1 @ concat strs) \<le> length (pend @ concat (str # strs))"
      using ok(5) by simp
    have step: "for_each (str # strs) (fd_write fd) s = for_each strs (fd_write fd) s1"
      using ok(1) by simp
    from Cons.IH [OF ok(2)] show ?thesis
    proof (rule disjE, goal_cases)
      case 1
      then obtain s' dev' pend' where a: "for_each strs (fd_write fd) s1 = (Inr (), s')"
        "writing s0 fd path dev' pend' s'"
        "dev' @ pend' = dev1 @ pend1 @ concat strs"
        "length pend' \<le> length (pend1 @ concat strs)"
        "path \<notin> ttys s0 \<and> length (pend1 @ concat strs) < buffer_size \<longrightarrow> dev' = dev1"
        by blast
      have "path \<notin> ttys s0 \<and> length (pend @ concat (str # strs)) < buffer_size \<longrightarrow> dev' = dev"
      proof
        assume h: "path \<notin> ttys s0 \<and> length (pend @ concat (str # strs)) < buffer_size"
        then have "length (pend @ str) < buffer_size" by simp
        then have "dev1 = dev" using ok(4) h by blast
        moreover have "length (pend1 @ concat strs) < buffer_size" using l1 h by simp
        ultimately show "dev' = dev" using a(5) h by blast
      qed
      moreover have "length pend' \<le> length (pend @ concat (str # strs))"
        using a(4) l1 by simp
      moreover have "dev' @ pend' = dev @ pend @ concat (str # strs)"
        using a(3) e1 by simp
      ultimately show ?case using a(1,2) step by metis
    next
      case 2
      then obtain s' c0 pend' where a: "for_each strs (fd_write fd) s1 = (Inl (OSError Write), s')"
        "capacity s0 = Some c0" "c0 < length (dev1 @ pend1 @ concat strs)"
        "writing s0 fd path (take c0 (dev1 @ pend1 @ concat strs)) pend' s'"
        "path \<in> ttys s0 \<or> buffer_size \<le> length (pend1 @ concat strs)"
        by blast
      have "c0 < length (dev @ pend @ concat (str # strs))"
        using a(3) e1 by simp
      moreover have "writing s0 fd path (take c0 (dev @ pend @ concat (str # strs))) pend' s'"
        using a(4) e1 by simp
      moreover have "path \<in> ttys s0 \<or> buffer_size \<le> length (pend @ concat (str # strs))"
        using a(5) l1 by auto
      ultimately show ?case using a(1,2) step by metis
    qed
  next
    case (fail s' c0 pend')
    have "for_each (str # strs) (fd_write fd) s = (Inl (OSError Write), s')"
      using fail(1) by simp
    moreover have "c0 < length (dev @ pend @ concat (str # strs))"
      using fail(3) by simp
    moreover have "take c0 (dev @ pend @ concat (str # strs)) = take c0 (dev @ pend @ str)"
    proof -
      have "dev @ pend @ concat (str # strs) = (dev @ pend @ str) @ concat strs" by simp
      then show ?thesis using fail(3) by (simp only: take_append) simp
    qed
    moreover have "path \<in> ttys s0 \<or> buffer_size \<le> length (pend @ concat (str # strs))"
      using fail(5) by auto
    ultimately show ?thesis using fail(2,4) by metis
  qed
qed


lemma writing_files:
  assumes "writing s0 fd path dev pend s"
  shows "files s = (files s0)(path \<mapsto> dev)"
proof
  fix q show "files s q = ((files s0)(path \<mapsto> dev)) q"
    using writingD(2,5) [OF assms] by (cases "q = path") simp_all
qed

lemma writing_capacity:
  assumes "writing s0 fd path dev pend s"
  shows "capacity s = map_option (\<lambda>c. c - length dev) (capacity s0)"
  using writingD(3,4) [OF assms] by (cases "capacity s0") simp_all

text \<open>\<^verbatim>\<open>fd.close()\<close> at the end of the writes.\<close>

lemma fd_close_cases:
  assumes w: "writing s0 fd path dev pend s"
  obtains (ok) s' where "fd_close fd s = (Inr (), s')"
      and "\<forall>c0. capacity s0 = Some c0 \<longrightarrow> length (dev @ pend) \<le> c0"
      and "handles s' fd = None" and "files s' = (files s0)(path \<mapsto> dev @ pend)"
      and "capacity s' = map_option (\<lambda>c. c - length (dev @ pend)) (capacity s0)"
      and "unwritable s' = unwritable s0" and "ttys s' = ttys s0"
  | (fail) s' c0 where "fd_close fd s = (Inl (OSError Close), s')"
      and "capacity s0 = Some c0" and "c0 < length (dev @ pend)"
      and "handles s' fd = None" and "files s' = (files s0)(path \<mapsto> take c0 (dev @ pend))"
      and "capacity s' = Some 0"
proof -
  have c: "fd_close fd s =
        (fst (fd_flush Close fd s),
         (snd (fd_flush Close fd s))\<lparr>handles := (handles (snd (fd_flush Close fd s)))(fd := None)\<rparr>)"
    by (simp add: fd_close_def writingD(1) [OF w] split: prod.splits)
  from w show ?thesis
  proof (cases rule: fd_flush_cases [where who = Close])
    case (ok s1)
    let ?s' = "s1\<lparr>handles := (handles s1)(fd := None)\<rparr>"
    have "fd_close fd s = (Inr (), ?s')" using c ok(1) by simp
    moreover have "handles ?s' fd = None" by simp
    moreover have "files ?s' = (files s0)(path \<mapsto> dev @ pend)"
      using writing_files [OF ok(2)] by simp
    moreover have "capacity ?s' = map_option (\<lambda>c. c - length (dev @ pend)) (capacity s0)"
      using writing_capacity [OF ok(2)] by simp
    moreover have "unwritable ?s' = unwritable s0" "ttys ?s' = ttys s0"
      using writingD(8,9) [OF ok(2)] by simp_all
    ultimately show ?thesis using that(1) ok(3) by blast
  next
    case (fail s1 c0)
    let ?s' = "s1\<lparr>handles := (handles s1)(fd := None)\<rparr>"
    have "fd_close fd s = (Inl (OSError Close), ?s')" using c fail(1) by simp
    moreover have "handles ?s' fd = None" by simp
    moreover have "files ?s' = (files s0)(path \<mapsto> take c0 (dev @ pend))"
      using writing_files [OF fail(4)] by simp
    moreover have "capacity ?s' = Some 0"
      using writing_capacity [OF fail(4)] fail(2,3) by simp
    ultimately show ?thesis using that(2) fail(2,3) by blast
  qed
qed


subsection \<open>The four ways \<^verbatim>\<open>main\<close> can end\<close>

lemma main_open_fails:
  "output_fn \<in> unwritable s \<Longrightarrow> main H output_fn s = (Inl (OSError Open), s)"
  by (simp add: main_chunks io_bind_def open_w_def)

lemma main_cases:
  obtains (open_fails) "output_fn \<in> unwritable s"
      and "main H output_fn s = (Inl (OSError Open), s)"
  | (ok) s' where "output_fn \<notin> unwritable s"
      and "\<forall>c. capacity s = Some c \<longrightarrow> length (concat (chunks H)) \<le> c"
      and "main H output_fn s = (Inr (), s')"
      and "files s' = (files s)(output_fn \<mapsto> concat (chunks H))"
      and "handles s' (next_fd s) = None"
      and "capacity s' = map_option (\<lambda>c. c - length (concat (chunks H))) (capacity s)"
      and "unwritable s' = unwritable s" and "ttys s' = ttys s"
  | (write_fails) s' c where "output_fn \<notin> unwritable s"
      and "capacity s = Some c" and "c < length (concat (chunks H))"
      and "main H output_fn s = (Inl (OSError Write), s')"
      and "files s' = (files s)(output_fn \<mapsto> take c (concat (chunks H)))"
      and "capacity s' = Some 0" and "handles s' (next_fd s) \<noteq> None"
      and "output_fn \<in> ttys s \<or> buffer_size \<le> length (concat (chunks H))"
  | (close_fails) s' c where "output_fn \<notin> unwritable s"
      and "capacity s = Some c" and "c < length (concat (chunks H))"
      and "main H output_fn s = (Inl (OSError Close), s')"
      and "files s' = (files s)(output_fn \<mapsto> take c (concat (chunks H)))"
      and "capacity s' = Some 0" and "handles s' (next_fd s) = None"
proof (cases "output_fn \<in> unwritable s")
  case True
  then show ?thesis using open_fails main_open_fails by blast
next
  case nu: False
  define s0 where "s0 = s\<lparr>files := (files s)(output_fn \<mapsto> []),
      handles := (handles s)(next_fd s \<mapsto>
        \<lparr>name = output_fn, pending = [], line_buffering = (output_fn \<in> ttys s)\<rparr>),
      next_fd := Suc (next_fd s)\<rparr>"
  define fd where "fd = next_fd s"
  have op: "open_w output_fn s = (Inr fd, s0)"
    using nu by (simp add: open_w_def s0_def fd_def)
  have s0: "files s0 = (files s)(output_fn \<mapsto> [])" "capacity s0 = capacity s"
    "unwritable s0 = unwritable s" "ttys s0 = ttys s"
    by (simp_all add: s0_def)
  have w0: "writing s0 fd output_fn [] [] s0"
    by (rule writingI) (simp_all add: s0_def fd_def)
  have m: "main H output_fn s =
        io_then (for_each (chunks H) (fd_write fd)) (fd_close fd) s0"
    by (simp add: main_chunks io_bind_def op)
  from writes_result [OF w0, of "chunks H"] show ?thesis
  proof (rule disjE, goal_cases)
    case 1
    then obtain s1 dev pend where a: "for_each (chunks H) (fd_write fd) s0 = (Inr (), s1)"
      "writing s0 fd output_fn dev pend s1" "dev @ pend = concat (chunks H)"
      by auto
    have m1: "main H output_fn s = fd_close fd s1"
      using a(1) by (simp add: m io_then_def io_bind_def)
    from a(2) show ?case
    proof (cases rule: fd_close_cases)
      case (ok s')
      have "files s' = (files s)(output_fn \<mapsto> concat (chunks H))"
        using ok(4) a(3) by (simp add: s0)
      moreover have "capacity s' = map_option (\<lambda>c. c - length (concat (chunks H))) (capacity s)"
        using ok(5) a(3) by (simp add: s0)
      moreover have "\<forall>c. capacity s = Some c \<longrightarrow> length (concat (chunks H)) \<le> c"
        using ok(2) a(3) by (simp add: s0)
      ultimately show ?thesis
        using that(2) [of s'] nu m1 ok(1,3,6,7) by (simp add: s0 fd_def)
    next
      case (fail s' c)
      have "files s' = (files s)(output_fn \<mapsto> take c (concat (chunks H)))"
        using fail(5) a(3) by (simp add: s0)
      moreover have "capacity s = Some c" "c < length (concat (chunks H))"
        using fail(2,3) a(3) by (simp_all add: s0)
      ultimately show ?thesis
        using that(4) [of c s'] nu m1 fail(1,4,6) by (simp add: fd_def)
    qed
  next
    case 2
    then obtain s' c pend where a: "for_each (chunks H) (fd_write fd) s0 = (Inl (OSError Write), s')"
      "capacity s0 = Some c" "c < length (concat (chunks H))"
      "writing s0 fd output_fn (take c (concat (chunks H))) pend s'"
      "output_fn \<in> ttys s0 \<or> buffer_size \<le> length (concat (chunks H))"
      by auto
    have "main H output_fn s = (Inl (OSError Write), s')"
      using a(1) by (simp add: m io_then_def io_bind_def)
    moreover have "files s' = (files s)(output_fn \<mapsto> take c (concat (chunks H)))"
      using writing_files [OF a(4)] by (simp add: s0)
    moreover have "capacity s' = Some 0"
      using writing_capacity [OF a(4)] a(2,3) by simp
    moreover have "handles s' (next_fd s) \<noteq> None"
      using writingD(1) [OF a(4)] by (simp add: fd_def)
    ultimately show ?case
      using that(3) [of c s'] nu a(2,3,5) by (simp add: s0)
  qed
qed

subsection \<open>Runs in particular worlds\<close>

lemma main_succeeds_iff:
  "fst (main H output_fn s) = Inr () \<longleftrightarrow>
   output_fn \<notin> unwritable s \<and> (\<forall>c. capacity s = Some c \<longrightarrow> length (concat (chunks H)) \<le> c)"
  by (cases rule: main_cases [of output_fn s H]) auto

lemma main_success_files:
  assumes "fst (main H output_fn s) = Inr ()"
  shows "files (snd (main H output_fn s)) = (files s)(output_fn \<mapsto> concat (chunks H))"
  using assms by (cases rule: main_cases [of output_fn s H]) simp_all

lemma empty_world_ok: "fst (main H p empty_world) = Inr ()"
  by (simp add: main_succeeds_iff empty_world_def)

lemma length_sample_output: "length (concat (chunks sample_hash)) = 3602"
  by code_simp

lemma limited_world_facts:
  "''vectors.json'' \<notin> unwritable limited_world"
  "''vectors.json'' \<notin> ttys limited_world"
  "capacity limited_world = Some 1000"
  "next_fd limited_world = 3"
  by (simp_all add: limited_world_def empty_world_def)

lemma limited_world_close_fails:
  "fst (main sample_hash ''vectors.json'' limited_world) = Inl (OSError Close)"
  by (cases rule: main_cases [of "''vectors.json''" limited_world sample_hash])
    (simp_all add: limited_world_facts length_sample_output buffer_size_def)

lemma limited_world_file:
  "files (snd (main sample_hash ''vectors.json'' limited_world)) ''vectors.json'' =
   Some (take 1000 (concat (chunks sample_hash)))"
  by (cases rule: main_cases [of "''vectors.json''" limited_world sample_hash])
    (simp_all add: limited_world_facts length_sample_output)

lemma terminal_world_facts:
  "''/dev/pts/0'' \<notin> unwritable terminal_world"
  "next_fd terminal_world = 3"
  by (simp_all add: terminal_world_def empty_world_def)

lemma terminal_first_write:
  "fst (main sample_hash ''/dev/pts/0'' terminal_world) = Inl (OSError Write)"
  by (simp add: main_def io_bind_def io_then_def open_w_def fd_write_def fd_flush_def
      device_write_def terminal_world_def empty_world_def Let_def buffer_size_def)

subsection \<open>The digest of a record\<close>

lemma expected_digest_salt:
  "expected_digest H (salt_test H i) = Some (H [] key_bytes (bytearray_range (i + 1)) [])"
proof -
  have "decoded (salt_test H i) ''key'' = Some key_bytes"
    and "decoded (salt_test H i) ''salt'' = Some (bytearray_range (i + 1))"
    and "decoded (salt_test H i) ''persona'' = Some []"
    by (simp_all only: decoded_hex decoded_empty salt_test_fields)
  then show ?thesis by (simp add: expected_digest_def)
qed

lemma expected_digest_persona:
  "expected_digest H (persona_test H i) = Some (H [] key_bytes [] (bytearray_range (i + 1)))"
proof -
  have "decoded (persona_test H i) ''key'' = Some key_bytes"
    and "decoded (persona_test H i) ''salt'' = Some []"
    and "decoded (persona_test H i) ''persona'' = Some (bytearray_range (i + 1))"
    by (simp_all only: decoded_hex decoded_empty persona_test_fields)
  then show ?thesis by (simp add: expected_digest_def)
qed

lemma out_salt:
  "decoded (salt_test H i) ''out'' = Some (H [] key_bytes (bytearray_range (i + 1)) [])"
  by (simp only: decoded_hex salt_test_fields)

lemma out_persona:
  "decoded (persona_test H i) ''out'' = Some (H [] key_bytes [] (bytearray_range (i + 1)))"
  by (simp only: decoded_hex persona_test_fields)

subsection \<open>The file that a successful run leaves\<close>

lemma main_success_content:
  assumes "fst (main H output_fn s) = Inr ()"
  shows "files (snd (main H output_fn s)) output_fn = Some (array_text (map dumps (records H)))"
  by (simp add: main_success_files [OF assms] concat_chunks)

lemma map_to_json_records:
  "map to_json (records H) =
   map (\<lambda>i. to_json (salt_test H i)) [0..<8] @ map (\<lambda>i. to_json (persona_test H i)) [0..<8]"
  by (simp only: records_def map_append map_map comp_def)

section \<open>The claims\<close>

text \<open>
  C4. In every one of the sixteen records, \<^verbatim>\<open>hash\<close> is the string \<^verbatim>\<open>blake2s\<close>,
  \<^verbatim>\<open>in\<close> is the empty string, and \<^verbatim>\<open>key\<close> reads back from hexadecimal as the 32 bytes
  \<open>0, 1, ..., 31\<close>; the \<^verbatim>\<open>key\<close> field is the same in all of them.
\<close>

theorem key_hash_in_constant:
  assumes "i < 16"
  shows "field (records H ! i) ''hash'' = Some ''blake2s'' \<and>
         field (records H ! i) ''in'' = Some [] \<and>
         decoded (records H ! i) ''key'' = Some (map of_nat [0..<32]) \<and>
         (\<forall>j<16. field (records H ! j) ''key'' = field (records H ! i) ''key'')"
proof -
  have "decoded (records H ! i) ''key'' = Some (map of_nat [0..<32])"
    using field_key_records [OF assms, of H]
    by (simp only: decoded_hex key_bytes_def bytearray_range_def)
  moreover have "\<forall>j<16. field (records H ! j) ''key'' = field (records H ! i) ''key''"
    using field_key_records [of _ H] assms by metis
  ultimately show ?thesis
    using field_hash_records [OF assms, of H] field_in_records [OF assms, of H] by blast
qed


theorem key_hash_in_constant_witness:
  "(11::nat) < 16 \<and>
   field (records sample_hash ! 11) ''hash'' = Some ''blake2s'' \<and>
   field (records sample_hash ! 11) ''in'' = Some [] \<and>
   decoded (records sample_hash ! 11) ''key'' = Some (map of_nat [0..<32]) \<and>
   field (records sample_hash ! 2) ''key'' = field (records sample_hash ! 11) ''key''"
proof -
  have a: "(11::nat) < 16" and b: "(2::nat) < 16" by simp_all
  show ?thesis
    using key_hash_in_constant [OF a, of sample_hash] a b by blast
qed

text \<open>
  C3. In every record exactly one of \<^verbatim>\<open>salt\<close> and \<^verbatim>\<open>persona\<close> is a non-empty string
  and the other is the empty string: in records 1 to 8 (index \<open>i = 0..7\<close>) \<^verbatim>\<open>persona\<close> is
  empty and \<^verbatim>\<open>salt\<close> reads back from hexadecimal as the \<open>i + 1\<close> bytes \<open>0, 1, ..., i\<close>; in
  records 9 to 16 (index \<open>8 + i\<close>) it is the other way round.
\<close>

theorem salt_persona_exclusive:
  assumes "i < 8"
  shows "field (records H ! i) ''persona'' = Some [] \<and>
         field (records H ! i) ''salt'' \<notin> {None, Some []} \<and>
         decoded (records H ! i) ''salt'' = Some (map of_nat [0..<i + 1]) \<and>
         field (records H ! (8 + i)) ''salt'' = Some [] \<and>
         field (records H ! (8 + i)) ''persona'' \<notin> {None, Some []} \<and>
         decoded (records H ! (8 + i)) ''persona'' = Some (map of_nat [0..<i + 1])"
proof -
  have ne: "hex (bytearray_range (i + 1)) \<noteq> []"
    by (simp add: hex_eq_Nil bytearray_range_def)
  have d: "decoded (salt_test H i) ''salt'' = Some (map of_nat [0..<i + 1])"
    "decoded (persona_test H i) ''persona'' = Some (map of_nat [0..<i + 1])"
    by (simp_all only: decoded_hex salt_test_fields persona_test_fields bytearray_range_def)
  have "field (salt_test H i) ''salt'' \<notin> {None, Some []}"
    and "field (persona_test H i) ''persona'' \<notin> {None, Some []}"
    using ne by (simp_all add: salt_test_fields persona_test_fields)
  then show ?thesis
    using d by (simp only: records_nth_salt [OF assms] records_nth_persona [OF assms]
        salt_test_fields persona_test_fields)
qed


theorem salt_persona_exclusive_witness:
  "(7::nat) < 8 \<and>
   field (records sample_hash ! 7) ''persona'' = Some [] \<and>
   field (records sample_hash ! 7) ''salt'' = Some ''0001020304050607'' \<and>
   decoded (records sample_hash ! 7) ''salt'' = Some [0, 1, 2, 3, 4, 5, 6, 7] \<and>
   field (records sample_hash ! 15) ''salt'' = Some [] \<and>
   field (records sample_hash ! 15) ''persona'' = Some ''0001020304050607'' \<and>
   decoded (records sample_hash ! 15) ''persona'' = Some [0, 1, 2, 3, 4, 5, 6, 7]"
proof -
  have a: "(7::nat) < 8" by simp
  have h: "hex (bytearray_range (7 + 1)) = ''0001020304050607''"
    by (simp add: bytearray_range_def upt_8 hex_def hex_byte_def hexdigit_def)
  have r: "records sample_hash ! 7 = salt_test sample_hash 7"
    "records sample_hash ! 15 = persona_test sample_hash 7"
    using records_nth_salt [OF a, of sample_hash] records_nth_persona [OF a, of sample_hash]
    by simp_all
  have f: "field (records sample_hash ! 7) ''salt'' = Some ''0001020304050607''"
    "field (records sample_hash ! 15) ''persona'' = Some ''0001020304050607''"
    by (simp_all only: r salt_test_fields persona_test_fields h)
  have u: "map of_nat [0..<7 + 1] = [0, 1, 2, 3, 4, 5, 6, 7 :: byte]"
    by (simp add: upt_8)
  have n: "8 + 7 = (15::nat)" by simp
  show ?thesis
    using salt_persona_exclusive [OF a, of sample_hash] f a unfolding u n by blast
qed


text \<open>
  C1. In each of the sixteen records \<^verbatim>\<open>out\<close> is the hexadecimal text of a digest: read
  back from hexadecimal, it is the digest that the hash function gives for the empty message
  under the record's own \<^verbatim>\<open>key\<close>, \<^verbatim>\<open>salt\<close> and \<^verbatim>\<open>persona\<close>, themselves read back from
  hexadecimal. The records of the salt sweep have the empty persona, those of the persona
  sweep the empty salt. The hash function is the parameter \<open>H\<close>.
\<close>

theorem out_is_digest:
  assumes "i < 16"
  shows "expected_digest H (records H ! i) \<noteq> None \<and>
         decoded (records H ! i) ''out'' = expected_digest H (records H ! i) \<and>
         (i < 8 \<longrightarrow> field (records H ! i) ''persona'' = Some []) \<and>
         (8 \<le> i \<longrightarrow> field (records H ! i) ''salt'' = Some [])"
  using assms
proof (cases rule: records_cases [of i H])
  case 1
  then show ?thesis
    by (simp only: expected_digest_salt out_salt salt_test_fields) simp
next
  case (2 j)
  then show ?thesis
    by (simp only: expected_digest_persona out_persona persona_test_fields) simp
qed

theorem out_is_digest_witness:
  "(9::nat) < 16 \<and>
   decoded (records sample_hash ! 9) ''out'' =
     Some (sample_hash [] (map of_nat [0..<32]) [] [0, 1]) \<and>
   expected_digest sample_hash (records sample_hash ! 9) =
     Some (sample_hash [] (map of_nat [0..<32]) [] [0, 1])"
proof -
  have a: "(9::nat) < 16" by simp
  have r: "records sample_hash ! 9 = persona_test sample_hash 1"
    using records_nth_persona [of 1 sample_hash] by simp
  have b: "map of_nat [0..<1 + 1] = [0, 1 :: byte]"
    by (simp add: upt_rec)
  have "decoded (records sample_hash ! 9) ''out'' =
     Some (sample_hash [] (map of_nat [0..<32]) [] [0, 1])"
    by (simp only: r out_persona key_bytes_def bytearray_range_def b)
  then show ?thesis
    using out_is_digest [OF a, of sample_hash] a by metis
qed

text \<open>
  C6. Called without a path argument, the script prints the usage line to standard output
  and exits with status 1; no file is created and none is opened.
\<close>

theorem no_path_argument:
  assumes "length argv < 2"
  shows "fst (script H argv s) = Exit 1 \<and>
         exit_status (fst (script H argv s)) = 1 \<and>
         stdout (snd (script H argv s)) =
           stdout s @ ''Usage: gen_vectors.py <path to output file>'' @ ''\<newline>'' \<and>
         files (snd (script H argv s)) = files s \<and>
         handles (snd (script H argv s)) = handles s"
  using assms by (simp add: script_def print_def)

theorem no_path_argument_witness:
  "length [''gen_vectors.py''] < 2 \<and>
   fst (script sample_hash [''gen_vectors.py''] empty_world) = Exit 1 \<and>
   stdout (snd (script sample_hash [''gen_vectors.py''] empty_world)) =
     ''Usage: gen_vectors.py <path to output file>\<newline>'' \<and>
   files (snd (script sample_hash [''gen_vectors.py''] empty_world)) = Map.empty"
proof -
  have a: "length [''gen_vectors.py''] < 2" by simp
  show ?thesis
    using no_path_argument [OF a, of sample_hash empty_world] a
    by (simp add: empty_world_def)
qed

text \<open>
  C7. Two runs with the same output path leave the same bytes in the file: whatever the
  world each run starts in (the second may start where the first ended), a run that
  succeeds leaves the same content at the path.
\<close>

theorem rerun_same_bytes:
  assumes "fst (main H p s) = Inr ()" and "fst (main H p t) = Inr ()"
  shows "files (snd (main H p t)) p = files (snd (main H p s)) p \<and>
         files (snd (main H p s)) p \<noteq> None"
  by (simp add: main_success_files [OF assms(1)] main_success_files [OF assms(2)])

theorem rerun_same_bytes_witness:
  "fst (main sample_hash ''vectors.json'' empty_world) = Inr () \<and>
   fst (main sample_hash ''vectors.json'' (snd (main sample_hash ''vectors.json'' empty_world)))
     = Inr () \<and>
   files (snd (main sample_hash ''vectors.json''
            (snd (main sample_hash ''vectors.json'' empty_world)))) ''vectors.json'' =
   files (snd (main sample_hash ''vectors.json'' empty_world)) ''vectors.json''"
proof -
  let ?s = "snd (main sample_hash ''vectors.json'' empty_world)"
  have a: "fst (main sample_hash ''vectors.json'' empty_world) = Inr ()"
    by (rule empty_world_ok)
  have "unwritable ?s = {}" and "capacity ?s = None"
    by (cases rule: main_cases [of "''vectors.json''" empty_world sample_hash];
        simp add: empty_world_def)+
  then have b: "fst (main sample_hash ''vectors.json'' ?s) = Inr ()"
    by (simp add: main_succeeds_iff)
  show ?thesis
    using rerun_same_bytes [OF a b] a b by blast
qed

text \<open>
  C10. The bytes written do not depend on the path: two successful runs on any two paths
  leave the same content at their paths, and a run changes no file but the one at its path.
\<close>

theorem content_independent_of_path:
  assumes "fst (main H p s) = Inr ()" and "fst (main H q t) = Inr ()"
  shows "files (snd (main H p s)) p = files (snd (main H q t)) q \<and>
         (\<forall>r. r \<noteq> p \<longrightarrow> files (snd (main H p s)) r = files s r)"
  by (simp add: main_success_files [OF assms(1)] main_success_files [OF assms(2)])

theorem content_independent_of_path_witness:
  "fst (main sample_hash ''a.json'' empty_world) = Inr () \<and>
   fst (main sample_hash ''/tmp/b.json'' empty_world) = Inr () \<and>
   files (snd (main sample_hash ''a.json'' empty_world)) ''a.json'' =
   files (snd (main sample_hash ''/tmp/b.json'' empty_world)) ''/tmp/b.json'' \<and>
   files (snd (main sample_hash ''a.json'' empty_world)) ''/tmp/b.json'' = None"
proof -
  have a: "fst (main sample_hash ''a.json'' empty_world) = Inr ()"
    and b: "fst (main sample_hash ''/tmp/b.json'' empty_world) = Inr ()"
    by (rule empty_world_ok)+
  have n: "''/tmp/b.json'' \<noteq> ''a.json''" by simp
  have e: "files empty_world ''/tmp/b.json'' = None" by (simp add: empty_world_def)
  show ?thesis
    using content_independent_of_path [OF a b] a b n e by metis
qed

text \<open>
  C8. The claim that the file object is closed on every path after a successful
  \<^verbatim>\<open>open\<close>, also when a write raises, fails: \<^verbatim>\<open>main\<close> has no \<^verbatim>\<open>try\<close>/\<^verbatim>\<open>finally\<close> and
  no \<^verbatim>\<open>with\<close>, so an exception raised by \<^verbatim>\<open>fd.write\<close> leaves \<^verbatim>\<open>main\<close> before
  \<^verbatim>\<open>fd.close()\<close>. On a terminal that takes nothing any more the first write raises, and
  the file object is still open when \<^verbatim>\<open>main\<close> is left.
\<close>

theorem handle_left_open_counterexample:
  "''/dev/pts/0'' \<notin> unwritable terminal_world \<and>
   fst (main sample_hash ''/dev/pts/0'' terminal_world) = Inl (OSError Write) \<and>
   handles (snd (main sample_hash ''/dev/pts/0'' terminal_world)) (next_fd terminal_world) \<noteq> None"
proof -
  have "handles (snd (main sample_hash ''/dev/pts/0'' terminal_world)) (next_fd terminal_world)
        \<noteq> None"
    using terminal_first_write
    by (cases rule: main_cases [of "''/dev/pts/0''" terminal_world sample_hash]) simp_all
  then show ?thesis
    using terminal_first_write terminal_world_facts(1) by blast
qed

text \<open>
  C8, amended. After a successful \<^verbatim>\<open>open\<close>, \<^verbatim>\<open>main\<close> ends in one of three ways: it
  returns, or \<^verbatim>\<open>fd.write\<close> raised, or \<^verbatim>\<open>fd.close()\<close> raised. The file object is closed
  when \<^verbatim>\<open>main\<close> is left in every case but the second: it is still open exactly when a
  write raised. An error of the device that shows only when \<^verbatim>\<open>fd.close()\<close> empties the
  buffer, as it does for a file that is not a terminal and an output below the size of the
  buffer, leaves the file object closed.
\<close>

theorem handle_open_iff_write_raised:
  assumes "p \<notin> unwritable s"
  shows "fst (main H p s) \<in> {Inr (), Inl (OSError Write), Inl (OSError Close)} \<and>
         (handles (snd (main H p s)) (next_fd s) \<noteq> None \<longleftrightarrow>
            fst (main H p s) = Inl (OSError Write)) \<and>
         (p \<notin> ttys s \<and> length (concat (chunks H)) < buffer_size \<longrightarrow>
            handles (snd (main H p s)) (next_fd s) = None)"
  using assms by (cases rule: main_cases [of p s H]) (auto simp: not_less)

theorem handle_open_iff_write_raised_witness:
  "''vectors.json'' \<notin> unwritable limited_world \<and>
   fst (main sample_hash ''vectors.json'' limited_world) = Inl (OSError Close) \<and>
   handles (snd (main sample_hash ''vectors.json'' limited_world)) (next_fd limited_world) = None \<and>
   fst (main sample_hash ''vectors.json'' empty_world) = Inr () \<and>
   handles (snd (main sample_hash ''vectors.json'' empty_world)) (next_fd empty_world) = None"
proof -
  have a: "''vectors.json'' \<notin> unwritable limited_world" by (rule limited_world_facts)
  have b: "''vectors.json'' \<notin> unwritable empty_world" by (simp add: empty_world_def)
  show ?thesis
    using handle_open_iff_write_raised [OF a, of sample_hash]
      handle_open_iff_write_raised [OF b, of sample_hash]
      a limited_world_close_fails empty_world_ok [of sample_hash "''vectors.json''"]
    by simp
qed

text \<open>
  C9. An error while opening or writing the file is not caught: the script ends with exit
  status 0 exactly when the path can be opened and the device takes all the bytes of the
  run, and otherwise with the uncaught OSError (a traceback and exit status 1), raised by
  \<^verbatim>\<open>open\<close>, by \<^verbatim>\<open>fd.write\<close> or by \<^verbatim>\<open>fd.close()\<close>; for a file that is not a terminal
  and an output below the size of the buffer it is not raised by a write. Nothing is
  retried: after a failed \<^verbatim>\<open>open\<close> the world is untouched, and after a device error the
  file holds the bytes the device took, a prefix of the output cut where the room ended.
\<close>

theorem io_error_propagates:
  "(fst (script H (prog # p # rest) s) = Exit 0 \<longleftrightarrow>
      p \<notin> unwritable s \<and> (\<forall>c. capacity s = Some c \<longrightarrow> length (concat (chunks H)) \<le> c)) \<and>
   exit_status (fst (script H (prog # p # rest) s)) =
      (if fst (script H (prog # p # rest) s) = Exit 0 then 0 else 1) \<and>
   (p \<in> unwritable s \<longrightarrow>
      script H (prog # p # rest) s = (Traceback (OSError Open), s)) \<and>
   (\<forall>c. p \<notin> unwritable s \<and> capacity s = Some c \<and> c < length (concat (chunks H)) \<longrightarrow>
      fst (script H (prog # p # rest) s) \<in>
        {Traceback (OSError Write), Traceback (OSError Close)} \<and>
      files (snd (script H (prog # p # rest) s)) p = Some (take c (concat (chunks H))) \<and>
      capacity (snd (script H (prog # p # rest) s)) = Some 0) \<and>
   (p \<notin> ttys s \<and> length (concat (chunks H)) < buffer_size \<longrightarrow>
      fst (script H (prog # p # rest) s) \<noteq> Traceback (OSError Write))"
proof (cases rule: main_cases [of p s H])
  case open_fails
  then show ?thesis by (simp add: script_def)
next
  case (ok s')
  then show ?thesis by (auto simp: script_def)
next
  case (write_fails s' c)
  then show ?thesis by (auto simp: script_def)
next
  case (close_fails s' c)
  then show ?thesis by (auto simp: script_def)
qed

theorem io_error_propagates_witness:
  "fst (script sample_hash [''gen_vectors.py'', ''vectors.json''] limited_world) =
     Traceback (OSError Close) \<and>
   exit_status (fst (script sample_hash [''gen_vectors.py'', ''vectors.json''] limited_world)) = 1 \<and>
   files (snd (script sample_hash [''gen_vectors.py'', ''vectors.json''] limited_world))
     ''vectors.json'' = Some (take 1000 (concat (chunks sample_hash))) \<and>
   script sample_hash [''gen_vectors.py'', ''/proc/x'']
          (empty_world\<lparr>unwritable := {''/proc/x''}\<rparr>) =
     (Traceback (OSError Open), empty_world\<lparr>unwritable := {''/proc/x''}\<rparr>)"
proof -
  have "(1000::nat) < 3602" by simp
  then show ?thesis
    using io_error_propagates [of sample_hash "''gen_vectors.py''" "''vectors.json''" "[]" limited_world]
      io_error_propagates [of sample_hash "''gen_vectors.py''" "''/proc/x''" "[]"
        "empty_world\<lparr>unwritable := {''/proc/x''}\<rparr>"]
    by (auto simp: limited_world_facts length_sample_output buffer_size_def)
qed

text \<open>
  C2. A run that succeeds leaves a file that reads as one JSON array of exactly sixteen
  records in a fixed order: the eight records of the salt sweep for \<open>i = 0, ..., 7\<close>,
  then the eight records of the persona sweep for \<open>i = 0, ..., 7\<close>.
\<close>

theorem sixteen_records_in_order:
  assumes "fst (main H p s) = Inr ()"
  shows "parsed_file (snd (main H p s)) p =
           Some (JArray (map (\<lambda>i. to_json (salt_test H i)) [0..<8] @
                         map (\<lambda>i. to_json (persona_test H i)) [0..<8])) \<and>
         length (map (\<lambda>i. to_json (salt_test H i)) [0..<8] @
                 map (\<lambda>i. to_json (persona_test H i)) [0..<8]) = 16"
proof -
  have "parsed_file (snd (main H p s)) p = Some (JArray (map to_json (records H)))"
    by (simp only: parsed_file_def main_success_content [OF assms] option.case
        json_parse_array_text)
  then show ?thesis
    by (simp only: map_to_json_records) simp
qed

theorem sixteen_records_in_order_witness:
  "fst (main sample_hash ''vectors.json'' empty_world) = Inr () \<and>
   parsed_file (snd (main sample_hash ''vectors.json'' empty_world)) ''vectors.json'' =
     Some (JArray (map (\<lambda>i. to_json (salt_test sample_hash i)) [0..<8] @
                   map (\<lambda>i. to_json (persona_test sample_hash i)) [0..<8]))"
proof -
  have a: "fst (main sample_hash ''vectors.json'' empty_world) = Inr ()"
    by (rule empty_world_ok)
  show ?thesis
    using sixteen_records_in_order [OF a] a by blast
qed

text \<open>
  C5. The file a successful run leaves is one well-formed JSON array: an opening bracket,
  the texts of the sixteen records with a comma between one and the next and none after
  the last (the record of the persona sweep for \<open>i = 7\<close>), and the closing bracket. The
  reader accepts it as an array of sixteen elements.
\<close>

theorem output_is_json_array:
  assumes "fst (main H p s) = Inr ()"
  shows "files (snd (main H p s)) p =
           Some (''[\<newline>'' @ join '',\<newline>'' (map dumps (records H)) @ ''\<newline>'' @ '']'') \<and>
         last (records H) = persona_test H 7 \<and>
         (\<exists>vs. parsed_file (snd (main H p s)) p = Some (JArray vs) \<and> length vs = 16)"
proof -
  have t: "files (snd (main H p s)) p = Some (array_text (map dumps (records H)))"
    by (rule main_success_content [OF assms])
  have "parsed_file (snd (main H p s)) p = Some (JArray (map to_json (records H)))"
    by (simp only: parsed_file_def t option.case json_parse_array_text)
  moreover have "length (map to_json (records H)) = 16"
    by (simp add: length_records)
  moreover have "last (records H) = persona_test H 7"
    by (simp add: records_def upt_8)
  ultimately show ?thesis
    using t unfolding array_text_def by blast
qed

theorem output_is_json_array_witness:
  "fst (main sample_hash ''vectors.json'' empty_world) = Inr () \<and>
   files (snd (main sample_hash ''vectors.json'' empty_world)) ''vectors.json'' =
     Some (''[\<newline>'' @ join '',\<newline>'' (map dumps (records sample_hash)) @ ''\<newline>'' @ '']'') \<and>
   (\<exists>vs. parsed_file (snd (main sample_hash ''vectors.json'' empty_world)) ''vectors.json'' =
           Some (JArray vs) \<and> length vs = 16)"
proof -
  have a: "fst (main sample_hash ''vectors.json'' empty_world) = Inr ()"
    by (rule empty_world_ok)
  show ?thesis
    using output_is_json_array [OF a] a by blast
qed

end
